theory Spec2Isabelle
  imports Main
begin

section \<open>Strings and the string library\<close>

text \<open>
  A Go string is a sequence of bytes; a line of a script is modelled as a \<open>string\<close>
  (a list of 8-bit characters). Every function of \<^verbatim>\<open>shccn.go\<close> looks only
  for ASCII characters, and no byte of a UTF-8 multi-byte sequence is an ASCII byte, so
  scanning byte by byte and scanning code point by code point find the same ASCII
  characters at the same places.
\<close>

definition dquote :: char where
  "dquote = CHR 0x22"

definition squote :: char where
  "squote = CHR 0x27"

definition newline :: char where
  "newline = CHR 0x0A"

text \<open>\<^verbatim>\<open>strings.HasPrefix(s, p)\<close>.\<close>

definition HasPrefix :: "string \<Rightarrow> string \<Rightarrow> bool" where
  "HasPrefix s p = (take (length p) s = p)"

text \<open>
  \<^verbatim>\<open>strings.Contains(s, substr)\<close>: \<open>substr\<close> starts at some position of \<open>s\<close>.
\<close>

fun Contains :: "string \<Rightarrow> string \<Rightarrow> bool" where
  "Contains [] substr = (substr = [])"
| "Contains (c # cs) substr = (HasPrefix (c # cs) substr \<or> Contains cs substr)"

text \<open>
  \<^verbatim>\<open>strings.Replace(s, old, new, -1)\<close> for a non-empty \<open>old\<close>: the occurrences of
  \<open>old\<close> are replaced from left to right, without overlap. Both calls in the program
  pass a \<open>old\<close> of one character; what the library does for an empty \<open>old\<close> is not
  modelled (the string is returned as it is).
\<close>

function Replace :: "string \<Rightarrow> string \<Rightarrow> string \<Rightarrow> string" where
  "Replace [] old new = []"
| "Replace (c # cs) old new =
     (if old \<noteq> [] \<and> HasPrefix (c # cs) old
      then new @ Replace (drop (length old) (c # cs)) old new
      else c # Replace cs old new)"
  by pat_completeness auto
termination
  by (relation "measure (\<lambda>(s, old, new). length s)") (auto simp: neq_Nil_conv)


text \<open>
  \<^verbatim>\<open>strings.Split(s, sep)\<close>. With a non-empty separator the string is cut at the
  occurrences of the separator, found from left to right without overlap: n separators
  give n + 1 pieces, some of them possibly empty. With the empty separator the string is
  cut after each character (the library cuts after each UTF-8 sequence; the pieces of a
  sequence of several bytes are not ASCII, stay next to each other and are joined again
  by \<^verbatim>\<open>strings.Join\<close>).
\<close>

function Split_from :: "string \<Rightarrow> string \<Rightarrow> string \<Rightarrow> string list" where
  "Split_from piece [] sep = [piece]"
| "Split_from piece (c # cs) sep =
     (if sep \<noteq> [] \<and> HasPrefix (c # cs) sep
      then piece # Split_from [] (drop (length sep) (c # cs)) sep
      else Split_from (piece @ [c]) cs sep)"
  by pat_completeness auto
termination
  by (relation "measure (\<lambda>(piece, s, sep). length s)") (auto simp: neq_Nil_conv)

definition Split :: "string \<Rightarrow> string \<Rightarrow> string list" where
  "Split s sep = (if sep = [] then map (\<lambda>c. [c]) s else Split_from [] s sep)"

text \<open>\<^verbatim>\<open>strings.Join(elems, "")\<close>.\<close>

definition Join :: "string list \<Rightarrow> string" where
  "Join elems = concat elems"

text \<open>
  \<^verbatim>\<open>strings.NewReplacer(old1, new1, old2, new2, ...).Replace(s)\<close>: at each position,
  from left to right, the first pair in argument order whose old string starts there is
  applied and the scan goes on after it; a character where no old string starts is
  copied. Pairs with an empty old string are not modelled (the program has none).
\<close>

function Replacer_Replace :: "(string \<times> string) list \<Rightarrow> string \<Rightarrow> string" where
  "Replacer_Replace pairs [] = []"
| "Replacer_Replace pairs (c # cs) =
     (case find (\<lambda>(old, new). old \<noteq> [] \<and> HasPrefix (c # cs) old) pairs of
        Some (old, new) \<Rightarrow> new @ Replacer_Replace pairs (drop (length old) (c # cs))
      | None \<Rightarrow> c # Replacer_Replace pairs cs)"
  by pat_completeness auto
termination
proof (relation "measure (\<lambda>(pairs, s). length s)")
  fix pairs :: "(string \<times> string) list" and c :: char and cs x2 x y
  assume "find (\<lambda>(old, new). old \<noteq> [] \<and> HasPrefix (c # cs) old) pairs = Some x2"
    and "(x, y) = x2"
  then have "x \<noteq> []"
    by (auto simp: find_Some_iff)
  then show "((pairs, drop (length x) (c # cs)), pairs, c # cs)
      \<in> measure (\<lambda>(pairs, s). length s)"
    by (cases x) auto
qed auto

section \<open>Regular expressions\<close>

text \<open>
  The patterns of the program, as package \<^verbatim>\<open>regexp\<close> reads them. A character class
  is a literal character, the dot (any character but the newline) or \<^verbatim>\<open>\s\<close> (tab,
  newline, form feed, carriage return, space). The dot stands under a star wherever the
  program uses it, so that matching character by character and matching code point by
  code point agree.
\<close>

datatype cclass = Lit char | Dot | WhiteSpace

fun cmatch :: "cclass \<Rightarrow> char \<Rightarrow> bool" where
  "cmatch (Lit c) x = (x = c)"
| "cmatch Dot x = (x \<noteq> newline)"
| "cmatch WhiteSpace x = (x \<in> set [CHR 0x09, CHR 0x0A, CHR 0x0C, CHR 0x0D, CHR '' ''])"

text \<open>
  \<open>Bot\<close> is \<^verbatim>\<open>^\<close> (without the multi-line flag: the beginning of the text),
  \<open>Empty\<close> the empty pattern.
\<close>

datatype rexp = Empty | Bot | Chr cclass | Seq rexp rexp | Alt rexp rexp | Star rexp

text \<open>All the ways of cutting a string in two.\<close>

fun splits :: "string \<Rightarrow> (string \<times> string) list" where
  "splits [] = [([], [])]"
| "splits (x # xs) = ([], x # xs) # map (\<lambda>(u, v). (x # u, v)) (splits xs)"

text \<open>
  \<open>star_match p beg s\<close>: \<open>s\<close> is cut into pieces, none of them empty, that each satisfy
  \<open>p\<close>. The flag \<open>beg\<close> says that \<open>s\<close> starts at the beginning of the text; only
  the first piece can.
\<close>

fun star_match :: "(bool \<Rightarrow> string \<Rightarrow> bool) \<Rightarrow> bool \<Rightarrow> string \<Rightarrow> bool" where
  "star_match p beg [] = True"
| "star_match p beg (x # xs) =
     list_ex (\<lambda>k. p beg (x # take k xs) \<and> star_match p False (drop k xs)) [0..<Suc (length xs)]"

text \<open>
  \<open>matches r beg s\<close>: the pattern \<open>r\<close> matches the whole of \<open>s\<close>, a piece of the
  text that starts at the beginning of the text exactly when \<open>beg\<close> holds.
\<close>

primrec matches :: "rexp \<Rightarrow> bool \<Rightarrow> string \<Rightarrow> bool" where
  "matches Empty beg s = (s = [])"
| "matches Bot beg s = (beg \<and> s = [])"
| "matches (Chr c) beg s = (case s of [x] \<Rightarrow> cmatch c x | _ \<Rightarrow> False)"
| "matches (Seq r1 r2) beg s =
     list_ex (\<lambda>(u, v). matches r1 beg u \<and> matches r2 (beg \<and> u = []) v) (splits s)"
| "matches (Alt r1 r2) beg s = (matches r1 beg s \<or> matches r2 beg s)"
| "matches (Star r) beg s = star_match (matches r) beg s"

text \<open>
  \<^verbatim>\<open>re.MatchString(s)\<close>: some piece of \<open>s\<close> matches the pattern (the search is
  not anchored).
\<close>

definition MatchString :: "rexp \<Rightarrow> string \<Rightarrow> bool" where
  "MatchString re s =
     list_ex (\<lambda>(p, rest). list_ex (\<lambda>(m, q). matches re (p = []) m) (splits rest)) (splits s)"

text \<open>A pattern that is a sequence of patterns, and a pattern that is a literal text.\<close>

fun seqs :: "rexp list \<Rightarrow> rexp" where
  "seqs [] = Empty"
| "seqs [r] = r"
| "seqs (r # rs) = Seq r (seqs rs)"

definition literal :: "string \<Rightarrow> rexp" where
  "literal w = seqs (map (\<lambda>c. Chr (Lit c)) w)"

text \<open>
  \<^verbatim>\<open>
  functionEndExp    = regexp.MustCompile(`}`)
  functionNotEndExp = regexp.MustCompile(`.*'.*}.*|.*".*}.*`)
  ccnExp            = regexp.MustCompile(`if|while|for|;;`)
  NotCcnExp         = regexp.MustCompile(`.*'.*if|.*".*if|.*'.*while|.*".*while|.*'.*for|.*".*for`)
  conditionExp      = regexp.MustCompile(`&&|\|\|`)
  commentExp        := regexp.MustCompile(`^\s*#`)
  functionStartExp  := regexp.MustCompile(`.*\(\s*\)\s*{`)
  \<close>
\<close>

definition functionEndExp :: rexp where
  "functionEndExp = literal ''}''"

definition functionNotEndExp :: rexp where
  "functionNotEndExp =
     Alt (seqs [Star (Chr Dot), Chr (Lit squote), Star (Chr Dot), Chr (Lit CHR ''}''), Star (Chr Dot)])
         (seqs [Star (Chr Dot), Chr (Lit dquote), Star (Chr Dot), Chr (Lit CHR ''}''), Star (Chr Dot)])"

definition ccnExp :: rexp where
  "ccnExp = Alt (literal ''if'') (Alt (literal ''while'') (Alt (literal ''for'') (literal '';;'')))"

definition NotCcnExp :: rexp where
  "NotCcnExp =
     Alt (seqs [Star (Chr Dot), Chr (Lit squote), Star (Chr Dot), literal ''if''])
    (Alt (seqs [Star (Chr Dot), Chr (Lit dquote), Star (Chr Dot), literal ''if''])
    (Alt (seqs [Star (Chr Dot), Chr (Lit squote), Star (Chr Dot), literal ''while''])
    (Alt (seqs [Star (Chr Dot), Chr (Lit dquote), Star (Chr Dot), literal ''while''])
    (Alt (seqs [Star (Chr Dot), Chr (Lit squote), Star (Chr Dot), literal ''for''])
         (seqs [Star (Chr Dot), Chr (Lit dquote), Star (Chr Dot), literal ''for''])))))"

definition conditionExp :: rexp where
  "conditionExp = Alt (literal ''&&'') (literal ''||'')"

definition commentExp :: rexp where
  "commentExp = seqs [Bot, Star (Chr WhiteSpace), Chr (Lit CHR ''#'')]"

definition functionStartExp :: rexp where
  "functionStartExp =
     seqs [Star (Chr Dot), Chr (Lit CHR ''(''), Star (Chr WhiteSpace), Chr (Lit CHR '')''),
           Star (Chr WhiteSpace), Chr (Lit CHR ''{'')]"

section \<open>Line classification\<close>


text \<open>
  \<^verbatim>\<open>
  func isBlankLine(line string) bool {
      tmp := strings.Replace(line, " ", "", -1)
      if len(tmp) == 0 { return true }
      return false
  }
  \<close>
\<close>

definition isBlankLine :: "string \<Rightarrow> bool" where
  "isBlankLine line = (let tmp = Replace line '' '' '''' in if length tmp = 0 then True else False)"

text \<open>
  \<^verbatim>\<open>
  func isCommentLine(line string) bool {
      commentExp := regexp.MustCompile(`^\s*#`)
      if commentExp.MatchString(line) { return true }
      return false
  }
  \<close>
\<close>

definition isCommentLine :: "string \<Rightarrow> bool" where
  "isCommentLine line = (if MatchString commentExp line then True else False)"

text \<open>
  \<^verbatim>\<open>
  func removeQuote(line string) (result string) {
      splited := strings.Split(line, "")
      var tmp []string
      flag := false
      for _, v := range splited {
          if flag {
              if strings.Contains(v, `'`) { flag = false; continue }
              continue
          }
          if strings.Contains(v, `'`) { flag = true; continue }
          tmp = append(tmp, v)
      }
      return strings.Join(tmp, "")
  }
  \<close>
  The loop carries the pieces kept so far and the flag "inside a quoted text".
\<close>

fun removeQuote_loop :: "string list \<Rightarrow> bool \<Rightarrow> string list \<Rightarrow> string list" where
  "removeQuote_loop tmp inside [] = tmp"
| "removeQuote_loop tmp inside (v # splited) =
     (if inside then
        (if Contains v [squote] then removeQuote_loop tmp False splited
         else removeQuote_loop tmp inside splited)
      else if Contains v [squote] then removeQuote_loop tmp True splited
      else removeQuote_loop (tmp @ [v]) inside splited)"

definition removeQuote :: "string \<Rightarrow> string" where
  "removeQuote line = Join (removeQuote_loop [] False (Split line []))"

text \<open>
  \<^verbatim>\<open>
  func isFunctionLine(line string) bool {
      tmp := strings.Replace(line, `"`, `'`, -1)
      if strings.Contains(tmp, `'`) {
          line = removeQuote(line)
      }
      functionStartExp := regexp.MustCompile(`.*\(\s*\)\s*{`)
      if functionStartExp.MatchString(line) { return true }
      return false
  }
  \<close>
  The text handed to \<^verbatim>\<open>removeQuote\<close> is \<^verbatim>\<open>line\<close>, not \<^verbatim>\<open>tmp\<close>.
\<close>

definition isFunctionLine :: "string \<Rightarrow> bool" where
  "isFunctionLine line =
     (let tmp = Replace line [dquote] [squote];
          line' = (if Contains tmp [squote] then removeQuote line else line)
      in if MatchString functionStartExp line' then True else False)"

section \<open>File metrics\<close>

record FileContents =
  Name :: string
  Lines :: "string list"

text \<open>
  The counters are Go \<^verbatim>\<open>int\<close>s, modelled as unbounded integers: a counter grows by
  one for a line (or a piece of a line) of the input, so it stays far below the 64-bit
  bound for every input that fits in memory.
\<close>

definition GetLines :: "FileContents \<Rightarrow> int" where
  "GetLines fc = int (length (Lines fc))"

fun GetBlankLines_loop :: "int \<Rightarrow> string list \<Rightarrow> int" where
  "GetBlankLines_loop count [] = count"
| "GetBlankLines_loop count (v # vs) =
     (if isBlankLine v then GetBlankLines_loop (count + 1) vs else GetBlankLines_loop count vs)"

definition GetBlankLines :: "FileContents \<Rightarrow> int" where
  "GetBlankLines fc = GetBlankLines_loop 0 (Lines fc)"

text \<open>
  \<^verbatim>\<open>
  func (fc *FileContents) GetCommentLines() (count int) {
      for i, v := range fc.Lines {
          if i == 0 { continue }
          if isCommentLine(v) { count++ }
      }
      return count
  }
  \<close>
\<close>

fun GetCommentLines_loop :: "int \<Rightarrow> nat \<Rightarrow> string list \<Rightarrow> int" where
  "GetCommentLines_loop count i [] = count"
| "GetCommentLines_loop count i (v # vs) =
     (if i = 0 then GetCommentLines_loop count (Suc i) vs
      else if isCommentLine v then GetCommentLines_loop (count + 1) (Suc i) vs
      else GetCommentLines_loop count (Suc i) vs)"

definition GetCommentLines :: "FileContents \<Rightarrow> int" where
  "GetCommentLines fc = GetCommentLines_loop 0 0 (Lines fc)"

definition GetCodeLines :: "FileContents \<Rightarrow> int" where
  "GetCodeLines fc =
     (let total = GetLines fc; blanks = GetBlankLines fc; comments = GetCommentLines fc
      in total - blanks - comments)"

fun GetFunctionLines_loop :: "int \<Rightarrow> string list \<Rightarrow> int" where
  "GetFunctionLines_loop count [] = count"
| "GetFunctionLines_loop count (v # vs) =
     (if isFunctionLine v then GetFunctionLines_loop (count + 1) vs
      else GetFunctionLines_loop count vs)"

definition GetFunctionLines :: "FileContents \<Rightarrow> int" where
  "GetFunctionLines fc = GetFunctionLines_loop 0 (Lines fc)"

text \<open>
  \<^verbatim>\<open>
  func GetCodes(code []string) (result []string) {
      for _, v := range code {
          if isCommentLine(v) { continue }
          if isBlankLine(v) { continue }
          result = append(result, v)
      }
      return result
  }
  \<close>
\<close>

fun GetCodes_loop :: "string list \<Rightarrow> string list \<Rightarrow> string list" where
  "GetCodes_loop acc [] = acc"
| "GetCodes_loop acc (v # vs) =
     (if isCommentLine v then GetCodes_loop acc vs
      else if isBlankLine v then GetCodes_loop acc vs
      else GetCodes_loop (acc @ [v]) vs)"

definition GetCodes :: "string list \<Rightarrow> string list" where
  "GetCodes code = GetCodes_loop [] code"

section \<open>Function extraction\<close>

text \<open>
  \<^verbatim>\<open>
  func GetFunctionName(line string) string {
      r := strings.NewReplacer("function", "", "{", "", "(", "", ")", "", " ", "")
      return r.Replace(line)
  }
  \<close>
\<close>

definition GetFunctionName :: "string \<Rightarrow> string" where
  "GetFunctionName line =
     Replacer_Replace
       [(''function'', []), (''{'', []), (''('', []), ('')'', []), ('' '', [])] line"

text \<open>
  \<^verbatim>\<open>
  func GetFunctions(code []string) map[string][]string {
      result := make(map[string][]string)
      flag := false
      var funcname string
      for _, v := range code {
          if flag {
              if functionEndExp.MatchString(v) {
                  if functionNotEndExp.MatchString(v) {
                      result[funcname] = append(result[funcname], v)
                      continue
                  }
                  flag = false
                  funcname = ""
                  continue
              }
              result[funcname] = append(result[funcname], v)
              continue
          }
          if isFunctionLine(v) {
              funcname = GetFunctionName(v)
              flag = true
              continue
          }
          funcname = "BARE_CODE"
          result[funcname] = append(result[funcname], v)
      }
      return result
  }
  \<close>
  The map is a partial function from names to bodies. Reading a key that is absent gives
  the nil slice, so \<^verbatim>\<open>append(result[k], v)\<close> creates the entry of \<open>k\<close> when there
  is none. The state of the scan is the map, the flag and the current name.
\<close>

record scanner =
  result :: "string \<rightharpoonup> string list"
  flag :: bool
  funcname :: string

definition append_line ::
    "(string \<rightharpoonup> string list) \<Rightarrow> string \<Rightarrow> string \<Rightarrow> (string \<rightharpoonup> string list)" where
  "append_line m k v = m(k \<mapsto> (case m k of None \<Rightarrow> [] | Some body \<Rightarrow> body) @ [v])"

definition GetFunctions_step :: "scanner \<Rightarrow> string \<Rightarrow> scanner" where
  "GetFunctions_step st v =
     (if flag st then
        (if MatchString functionEndExp v then
           (if MatchString functionNotEndExp v
            then st\<lparr>result := append_line (result st) (funcname st) v\<rparr>
            else st\<lparr>flag := False, funcname := []\<rparr>)
         else st\<lparr>result := append_line (result st) (funcname st) v\<rparr>)
      else if isFunctionLine v then st\<lparr>funcname := GetFunctionName v, flag := True\<rparr>
      else st\<lparr>funcname := ''BARE_CODE'',
              result := append_line (result st) ''BARE_CODE'' v\<rparr>)"

fun GetFunctions_loop :: "scanner \<Rightarrow> string list \<Rightarrow> scanner" where
  "GetFunctions_loop st [] = st"
| "GetFunctions_loop st (v # code) = GetFunctions_loop (GetFunctions_step st v) code"

definition GetFunctions :: "string list \<Rightarrow> (string \<rightharpoonup> string list)" where
  "GetFunctions code =
     result (GetFunctions_loop \<lparr>result = Map.empty, flag = False, funcname = []\<rparr> code)"

section \<open>Cyclomatic complexity\<close>

text \<open>
  \<^verbatim>\<open>
  func CalculateCCN(code []string) (result int) {
      result = 1
      for _, v := range code {
          if ccnExp.MatchString(v) {
              if NotCcnExp.MatchString(v) { continue }
              result++
          }
          for _, element := range strings.Split(v, " ") {
              if conditionExp.MatchString(element) { result++ }
          }
      }
      return result
  }
  \<close>
\<close>

fun CalculateCCN_elements :: "int \<Rightarrow> string list \<Rightarrow> int" where
  "CalculateCCN_elements n [] = n"
| "CalculateCCN_elements n (element # elements) =
     (if MatchString conditionExp element then CalculateCCN_elements (n + 1) elements
      else CalculateCCN_elements n elements)"

fun CalculateCCN_loop :: "int \<Rightarrow> string list \<Rightarrow> int" where
  "CalculateCCN_loop n [] = n"
| "CalculateCCN_loop n (v # code) =
     (if MatchString ccnExp v then
        (if MatchString NotCcnExp v then CalculateCCN_loop n code
         else CalculateCCN_loop (CalculateCCN_elements (n + 1) (Split v '' '')) code)
      else CalculateCCN_loop (CalculateCCN_elements n (Split v '' '')) code)"

definition CalculateCCN :: "string list \<Rightarrow> int" where
  "CalculateCCN code = CalculateCCN_loop 1 code"

section \<open>Patterns as scans\<close>

text \<open>
  Auxiliary functions, not part of the program: each one decides by a single scan of the
  line what a pattern of the program decides by search. They are proved equal to the
  patterns below and serve to evaluate the patterns on concrete lines.

  \<open>follows q w s\<close>: the character \<open>q\<close> occurs in \<open>s\<close> and the text \<open>w\<close> occurs after
  it with no newline in between.
\<close>

fun follows :: "char \<Rightarrow> string \<Rightarrow> string \<Rightarrow> bool" where
  "follows Q W [] = False"
| "follows Q W (c # cs) =
     ((c = Q \<and> Contains (takeWhile (\<lambda>x. x \<noteq> newline) cs) W) \<or> follows Q W cs)"


text \<open>
  \<open>after_ws c t\<close>: the first character of \<open>t\<close> that is not white space is \<open>c\<close>; the
  result is what comes after it.
\<close>

definition after_ws :: "char \<Rightarrow> string \<Rightarrow> string option" where
  "after_ws c t = (case dropWhile (cmatch WhiteSpace) t of [] \<Rightarrow> None
                   | d # q \<Rightarrow> if d = c then Some q else None)"


text \<open>\<open>somewhere P s\<close>: some suffix of \<open>s\<close> satisfies \<open>P\<close>.\<close>

fun somewhere :: "(string \<Rightarrow> bool) \<Rightarrow> string \<Rightarrow> bool" where
  "somewhere P [] = P []"
| "somewhere P (c # cs) = (P (c # cs) \<or> somewhere P cs)"


text \<open>
  \<open>decl_here t\<close>: \<open>t\<close> starts with an opening parenthesis, white space, a closing
  parenthesis, white space and an opening brace.
\<close>

definition decl_here :: "string \<Rightarrow> bool" where
  "decl_here t =
     (case t of [] \<Rightarrow> False
      | c # t1 \<Rightarrow> c = CHR ''('' \<and>
          (case after_ws (CHR '')'') t1 of None \<Rightarrow> False
           | Some t2 \<Rightarrow> after_ws (CHR ''{'') t2 \<noteq> None))"


section \<open>Properties of the string library\<close>

lemma Replace_char_delete: "Replace s [c] [] = filter (\<lambda>x. x \<noteq> c) s"
  by (induction s) (auto simp: HasPrefix_def)

lemma isBlankLine_filter: "isBlankLine line \<longleftrightarrow> filter (\<lambda>x. x \<noteq> CHR '' '') line = []"
  by (simp add: isBlankLine_def Replace_char_delete)


section \<open>Properties of the patterns\<close>

lemma set_splits: "set (splits s) = {(u, v). u @ v = s}"
proof (induction s)
  case Nil
  then show ?case by auto
next
  case (Cons x xs)
  show ?case
  proof (rule set_eqI)
    fix p :: "string \<times> string"
    obtain u v where p: "p = (u, v)" by (cases p)
    show "p \<in> set (splits (x # xs)) \<longleftrightarrow> p \<in> {(u, v). u @ v = x # xs}"
      unfolding p using Cons.IH by (cases u) (auto simp: image_iff)
  qed
qed

lemma matches_Seq_iff:
  "matches (Seq r1 r2) beg s \<longleftrightarrow>
     (\<exists>u v. s = u @ v \<and> matches r1 beg u \<and> matches r2 (beg \<and> u = []) v)"
  by (auto simp: list_ex_iff set_splits)

lemma MatchString_iff:
  "MatchString re s \<longleftrightarrow> (\<exists>p m q. s = p @ m @ q \<and> matches re (p = []) m)"
  by (auto simp: MatchString_def list_ex_iff set_splits)

lemma matches_Chr_Cons: "matches (Chr c) beg (x # t) \<longleftrightarrow> t = [] \<and> cmatch c x"
  by (cases t) auto

lemma matches_Chr_iff: "matches (Chr c) beg s \<longleftrightarrow> (\<exists>x. s = [x] \<and> cmatch c x)"
  by (cases s) (auto split: list.splits)

lemma star_match_Chr: "star_match (matches (Chr c)) beg s \<longleftrightarrow> (\<forall>x\<in>set s. cmatch c x)"
proof (induction s arbitrary: beg)
  case Nil
  then show ?case by simp
next
  case (Cons x xs)
  have "star_match (matches (Chr c)) beg (x # xs) \<longleftrightarrow>
      cmatch c x \<and> star_match (matches (Chr c)) False xs" (is "?L \<longleftrightarrow> ?R")
  proof
    assume ?L
    then obtain k where k: "take k xs = []" "cmatch c x"
        "star_match (matches (Chr c)) False (drop k xs)"
      unfolding star_match.simps list_ex_iff matches_Chr_Cons by blast
    from k(1) have "drop k xs = xs"
      by (metis append_Nil append_take_drop_id)
    with k show ?R by simp
  next
    assume ?R
    then have "matches (Chr c) beg (x # take 0 xs) \<and> star_match (matches (Chr c)) False (drop 0 xs)"
      by (simp del: matches.simps add: matches_Chr_Cons)
    moreover have "0 \<in> set [0..<Suc (length xs)]" by simp
    ultimately show ?L
      unfolding star_match.simps list_ex_iff by blast
  qed
  then show ?case using Cons.IH by (simp del: matches.simps star_match.simps)
qed

lemma matches_literal: "matches (literal w) beg s \<longleftrightarrow> s = w"
  unfolding literal_def
proof (induction w arbitrary: s beg)
  case Nil
  then show ?case by simp
next
  case (Cons c w)
  show ?case
  proof (cases w)
    case Nil
    then show ?thesis by (auto simp add: matches_Chr_iff simp del: matches.simps)
  next
    case w: (Cons d w')
    have "matches (seqs (map (\<lambda>c. Chr (Lit c)) (c # w))) beg s \<longleftrightarrow>
       (\<exists>u v. s = u @ v \<and> matches (Chr (Lit c)) beg u \<and> v = w)"
      unfolding w using Cons.IH[unfolded w] by (simp add: matches_Seq_iff del: matches.simps)
    also have "\<dots> \<longleftrightarrow> s = c # w"
    proof
      assume "\<exists>u v. s = u @ v \<and> matches (Chr (Lit c)) beg u \<and> v = w"
      then obtain u where u: "s = u @ w" "matches (Chr (Lit c)) beg u" by blast
      from u(2) have "u = [c]" by (auto simp: matches_Chr_iff simp del: matches.simps)
      with u show "s = c # w" by simp
    next
      assume "s = c # w"
      then have "s = [c] @ w \<and> matches (Chr (Lit c)) beg [c]" by simp
      then show "\<exists>u v. s = u @ v \<and> matches (Chr (Lit c)) beg u \<and> v = w" by blast
    qed
    finally show ?thesis .
  qed
qed

lemma HasPrefix_iff: "HasPrefix s p \<longleftrightarrow> (\<exists>q. s = p @ q)"
  unfolding HasPrefix_def
  by (metis append_eq_conv_conj append_take_drop_id)

lemma Contains_iff: "Contains s w \<longleftrightarrow> (\<exists>p q. s = p @ w @ q)"
proof (induction s)
  case Nil
  then show ?case by auto
next
  case (Cons c cs)
  show ?case
  proof
    assume "Contains (c # cs) w"
    then consider "HasPrefix (c # cs) w" | "Contains cs w" by auto
    then show "\<exists>p q. c # cs = p @ w @ q"
    proof cases
      case 1
      then obtain q where "c # cs = [] @ w @ q" by (auto simp: HasPrefix_iff)
      then show ?thesis by blast
    next
      case 2
      then obtain p q where "cs = p @ w @ q" using Cons.IH by blast
      then have "c # cs = (c # p) @ w @ q" by simp
      then show ?thesis by blast
    qed
  next
    assume "\<exists>p q. c # cs = p @ w @ q"
    then obtain p q where pq: "c # cs = p @ w @ q" by blast
    show "Contains (c # cs) w"
    proof (cases p)
      case Nil
      with pq have "HasPrefix (c # cs) w" by (auto simp: HasPrefix_iff)
      then show ?thesis by simp
    next
      case (Cons d p')
      with pq have "cs = p' @ w @ q" by simp
      then have "Contains cs w" using Cons.IH by blast
      then show ?thesis by simp
    qed
  qed
qed

lemma matches_Alt_iff: "matches (Alt a b) beg s \<longleftrightarrow> matches a beg s \<or> matches b beg s"
  by simp

lemma MatchString_Alt: "MatchString (Alt a b) s \<longleftrightarrow> MatchString a s \<or> MatchString b s"
  unfolding MatchString_iff by (simp del: matches.simps add: matches_Alt_iff) blast

lemma MatchString_literal: "MatchString (literal w) s \<longleftrightarrow> Contains s w"
  unfolding MatchString_iff Contains_iff matches_literal by blast

lemma matches_Star_Chr: "matches (Star (Chr c)) beg s \<longleftrightarrow> (\<forall>x\<in>set s. cmatch c x)"
  using star_match_Chr by simp

lemma same_line_iff:
  assumes "newline \<notin> set W"
  shows "Contains (takeWhile (\<lambda>x. x \<noteq> newline) cs) W \<longleftrightarrow>
         (\<exists>b q. cs = b @ W @ q \<and> newline \<notin> set b)"
proof
  assume "Contains (takeWhile (\<lambda>x. x \<noteq> newline) cs) W"
  then obtain b q where t: "takeWhile (\<lambda>x. x \<noteq> newline) cs = b @ W @ q"
    unfolding Contains_iff by blast
  have "cs = takeWhile (\<lambda>x. x \<noteq> newline) cs @ dropWhile (\<lambda>x. x \<noteq> newline) cs"
    by simp
  then have "cs = b @ W @ (q @ dropWhile (\<lambda>x. x \<noteq> newline) cs)"
    unfolding t by simp
  moreover have "newline \<notin> set b"
  proof
    assume "newline \<in> set b"
    then have "newline \<in> set (takeWhile (\<lambda>x. x \<noteq> newline) cs)" unfolding t by simp
    then show False using set_takeWhileD by fastforce
  qed
  ultimately show "\<exists>b q. cs = b @ W @ q \<and> newline \<notin> set b" by blast
next
  assume "\<exists>b q. cs = b @ W @ q \<and> newline \<notin> set b"
  then obtain b q where cs: "cs = (b @ W) @ q" and b: "newline \<notin> set b" by auto
  have "\<And>x. x \<in> set (b @ W) \<Longrightarrow> x \<noteq> newline" using assms b by auto
  then have "takeWhile (\<lambda>x. x \<noteq> newline) cs = (b @ W) @ takeWhile (\<lambda>x. x \<noteq> newline) q"
    unfolding cs by (rule takeWhile_append2)
  then show "Contains (takeWhile (\<lambda>x. x \<noteq> newline) cs) W"
    unfolding Contains_iff by auto
qed

lemma follows_iff:
  assumes "newline \<notin> set W"
  shows "follows Q W s \<longleftrightarrow> (\<exists>p b q. s = p @ Q # b @ W @ q \<and> newline \<notin> set b)"
proof (induction s)
  case Nil
  then show ?case by simp
next
  case (Cons c cs)
  show ?case
  proof
    assume "follows Q W (c # cs)"
    then consider "c = Q" "\<exists>b q. cs = b @ W @ q \<and> newline \<notin> set b" | "follows Q W cs"
      using same_line_iff[OF assms] by auto
    then show "\<exists>p b q. c # cs = p @ Q # b @ W @ q \<and> newline \<notin> set b"
    proof cases
      case 1
      then obtain b q where "c # cs = [] @ Q # b @ W @ q \<and> newline \<notin> set b" by auto
      then show ?thesis by blast
    next
      case 2
      then obtain p b q where "cs = p @ Q # b @ W @ q \<and> newline \<notin> set b"
        using Cons.IH by blast
      then have "c # cs = (c # p) @ Q # b @ W @ q \<and> newline \<notin> set b" by simp
      then show ?thesis by blast
    qed
  next
    assume "\<exists>p b q. c # cs = p @ Q # b @ W @ q \<and> newline \<notin> set b"
    then obtain p b q where s: "c # cs = p @ Q # b @ W @ q" and b: "newline \<notin> set b" by blast
    show "follows Q W (c # cs)"
    proof (cases p)
      case Nil
      with s have "c = Q" "cs = b @ W @ q" by auto
      with b have "c = Q \<and> Contains (takeWhile (\<lambda>x. x \<noteq> newline) cs) W"
        using same_line_iff[OF assms] by blast
      then show ?thesis by simp
    next
      case (Cons d p')
      with s have "cs = p' @ Q # b @ W @ q" by simp
      with b have "follows Q W cs" using Cons.IH by blast
      then show ?thesis by simp
    qed
  qed
qed

lemma cmatch_Dot_all: "(\<forall>x\<in>set s. cmatch Dot x) \<longleftrightarrow> newline \<notin> set s"
  by auto

lemma matches_quote_then:
  "matches (seqs [Star (Chr Dot), Chr (Lit Q), Star (Chr Dot), literal W]) beg m \<longleftrightarrow>
     (\<exists>a b. m = a @ Q # b @ W \<and> newline \<notin> set a \<and> newline \<notin> set b)"
  by (simp add: matches_Seq_iff matches_Star_Chr matches_Chr_iff matches_literal cmatch_Dot_all
        del: matches.simps) blast

lemma MatchString_quote_then:
  assumes "newline \<notin> set W"
  shows "MatchString (seqs [Star (Chr Dot), Chr (Lit Q), Star (Chr Dot), literal W]) s \<longleftrightarrow>
         follows Q W s"
proof -
  have "MatchString (seqs [Star (Chr Dot), Chr (Lit Q), Star (Chr Dot), literal W]) s \<longleftrightarrow>
      (\<exists>p a b q. s = p @ (a @ Q # b @ W) @ q \<and> newline \<notin> set a \<and> newline \<notin> set b)"
    unfolding MatchString_iff matches_quote_then by blast
  also have "\<dots> \<longleftrightarrow> (\<exists>p b q. s = p @ Q # b @ W @ q \<and> newline \<notin> set b)"
  proof
    assume "\<exists>p a b q. s = p @ (a @ Q # b @ W) @ q \<and> newline \<notin> set a \<and> newline \<notin> set b"
    then obtain p a b q where "s = (p @ a) @ Q # b @ W @ q \<and> newline \<notin> set b" by auto
    then show "\<exists>p b q. s = p @ Q # b @ W @ q \<and> newline \<notin> set b" by blast
  next
    assume "\<exists>p b q. s = p @ Q # b @ W @ q \<and> newline \<notin> set b"
    then obtain p b q where "s = p @ ([] @ Q # b @ W) @ q \<and> newline \<notin> set [] \<and> newline \<notin> set b"
      by auto
    then show "\<exists>p a b q. s = p @ (a @ Q # b @ W) @ q \<and> newline \<notin> set a \<and> newline \<notin> set b"
      by blast
  qed
  finally show ?thesis unfolding follows_iff[OF assms] .
qed

lemma matches_quote_brace:
  "matches (seqs [Star (Chr Dot), Chr (Lit Q), Star (Chr Dot), Chr (Lit CHR ''}''), Star (Chr Dot)]) beg m \<longleftrightarrow>
     (\<exists>a b c. m = a @ Q # b @ CHR ''}'' # c \<and> newline \<notin> set a \<and> newline \<notin> set b \<and> newline \<notin> set c)"
  by (simp add: matches_Seq_iff matches_Star_Chr matches_Chr_iff cmatch_Dot_all
        del: matches.simps) blast

lemma MatchString_quote_brace:
  "MatchString (seqs [Star (Chr Dot), Chr (Lit Q), Star (Chr Dot), Chr (Lit CHR ''}''), Star (Chr Dot)]) s \<longleftrightarrow>
         follows Q ''}'' s"
proof -
  have nl: "newline \<notin> set ''}''" by (simp add: newline_def)
  have "MatchString (seqs [Star (Chr Dot), Chr (Lit Q), Star (Chr Dot), Chr (Lit CHR ''}''), Star (Chr Dot)]) s \<longleftrightarrow>
      (\<exists>p a b c q. s = p @ (a @ Q # b @ CHR ''}'' # c) @ q \<and> newline \<notin> set a \<and> newline \<notin> set b \<and> newline \<notin> set c)"
    unfolding MatchString_iff matches_quote_brace by blast
  also have "\<dots> \<longleftrightarrow> (\<exists>p b q. s = p @ Q # b @ ''}'' @ q \<and> newline \<notin> set b)"
  proof
    assume "\<exists>p a b c q. s = p @ (a @ Q # b @ CHR ''}'' # c) @ q \<and> newline \<notin> set a \<and> newline \<notin> set b \<and> newline \<notin> set c"
    then obtain p a b c q where "s = (p @ a) @ Q # b @ ''}'' @ (c @ q) \<and> newline \<notin> set b" by auto
    then show "\<exists>p b q. s = p @ Q # b @ ''}'' @ q \<and> newline \<notin> set b" by blast
  next
    assume "\<exists>p b q. s = p @ Q # b @ ''}'' @ q \<and> newline \<notin> set b"
    then obtain p b q where
      "s = p @ ([] @ Q # b @ CHR ''}'' # []) @ q \<and> newline \<notin> set [] \<and> newline \<notin> set b \<and> newline \<notin> set []"
      by auto
    then show "\<exists>p a b c q. s = p @ (a @ Q # b @ CHR ''}'' # c) @ q \<and> newline \<notin> set a \<and> newline \<notin> set b \<and> newline \<notin> set c"
      by blast
  qed
  finally show ?thesis unfolding follows_iff[OF nl] .
qed

lemma after_ws_iff:
  assumes "\<not> cmatch WhiteSpace c"
  shows "after_ws c t = Some q \<longleftrightarrow> (\<exists>w. t = w @ c # q \<and> (\<forall>x\<in>set w. cmatch WhiteSpace x))"
proof
  assume "after_ws c t = Some q"
  then have d: "dropWhile (cmatch WhiteSpace) t = c # q"
    by (auto simp: after_ws_def split: list.splits if_splits)
  have "t = takeWhile (cmatch WhiteSpace) t @ dropWhile (cmatch WhiteSpace) t" by simp
  then have "t = takeWhile (cmatch WhiteSpace) t @ c # q" unfolding d .
  moreover have "\<forall>x\<in>set (takeWhile (cmatch WhiteSpace) t). cmatch WhiteSpace x"
    using set_takeWhileD by fastforce
  ultimately show "\<exists>w. t = w @ c # q \<and> (\<forall>x\<in>set w. cmatch WhiteSpace x)" by blast
next
  assume "\<exists>w. t = w @ c # q \<and> (\<forall>x\<in>set w. cmatch WhiteSpace x)"
  then obtain w where t: "t = w @ c # q" and w: "\<And>x. x \<in> set w \<Longrightarrow> cmatch WhiteSpace x" by blast
  have "dropWhile (cmatch WhiteSpace) t = dropWhile (cmatch WhiteSpace) (c # q)"
    unfolding t using w by (rule dropWhile_append2)
  then have "dropWhile (cmatch WhiteSpace) t = c # q" using assms by simp
  then show "after_ws c t = Some q" by (simp add: after_ws_def)
qed

lemma matches_Bot_iff: "matches Bot beg u \<longleftrightarrow> beg \<and> u = []"
  by simp

lemma MatchString_commentExp:
  "MatchString commentExp s \<longleftrightarrow> after_ws (CHR ''#'') s \<noteq> None"
proof -
  have ns: "\<not> cmatch WhiteSpace (CHR ''#'')" by simp
  have m: "matches commentExp beg m \<longleftrightarrow>
      beg \<and> (\<exists>w. m = w @ ''#'' \<and> (\<forall>x\<in>set w. cmatch WhiteSpace x))" for beg m
    unfolding commentExp_def
    by (simp add: matches_Seq_iff matches_Star_Chr matches_Chr_iff matches_Bot_iff
          del: matches.simps cmatch.simps(3))
  have "MatchString commentExp s \<longleftrightarrow>
      (\<exists>w q. s = w @ CHR ''#'' # q \<and> (\<forall>x\<in>set w. cmatch WhiteSpace x))"
  proof
    assume "MatchString commentExp s"
    then obtain p mid q w where "s = p @ mid @ q" "p = []" "mid = w @ ''#''"
        "\<forall>x\<in>set w. cmatch WhiteSpace x"
      unfolding MatchString_iff m by blast
    then have "s = w @ CHR ''#'' # q \<and> (\<forall>x\<in>set w. cmatch WhiteSpace x)" by simp
    then show "\<exists>w q. s = w @ CHR ''#'' # q \<and> (\<forall>x\<in>set w. cmatch WhiteSpace x)" by blast
  next
    assume "\<exists>w q. s = w @ CHR ''#'' # q \<and> (\<forall>x\<in>set w. cmatch WhiteSpace x)"
    then obtain w q where "s = w @ CHR ''#'' # q" and w: "\<forall>x\<in>set w. cmatch WhiteSpace x"
      by blast
    then have "s = [] @ (w @ ''#'') @ q" by simp
    moreover have "matches commentExp ([] = ([]::string)) (w @ ''#'')"
      unfolding m using w by blast
    ultimately show "MatchString commentExp s"
      unfolding MatchString_iff by blast
  qed
  also have "\<dots> \<longleftrightarrow> (\<exists>q. after_ws (CHR ''#'') s = Some q)"
    unfolding after_ws_iff[OF ns] by blast
  finally show ?thesis by auto
qed

lemma somewhere_iff: "somewhere P s \<longleftrightarrow> (\<exists>p t. s = p @ t \<and> P t)"
proof (induction s)
  case Nil
  then show ?case by simp
next
  case (Cons c cs)
  show ?case
  proof
    assume "somewhere P (c # cs)"
    then consider "P (c # cs)" | "somewhere P cs" by auto
    then show "\<exists>p t. c # cs = p @ t \<and> P t"
    proof cases
      case 1
      then have "c # cs = [] @ (c # cs) \<and> P (c # cs)" by simp
      then show ?thesis by blast
    next
      case 2
      then obtain p t where "cs = p @ t" "P t" using Cons.IH by blast
      then have "c # cs = (c # p) @ t \<and> P t" by simp
      then show ?thesis by blast
    qed
  next
    assume "\<exists>p t. c # cs = p @ t \<and> P t"
    then obtain p t where pt: "c # cs = p @ t" "P t" by blast
    show "somewhere P (c # cs)"
    proof (cases p)
      case Nil
      with pt have "P (c # cs)" by simp
      then show ?thesis by simp
    next
      case (Cons d p')
      with pt have "cs = p' @ t" by simp
      with pt(2) have "somewhere P cs" using Cons.IH by blast
      then show ?thesis by simp
    qed
  qed
qed

lemma decl_here_iff:
  "decl_here t \<longleftrightarrow>
     (\<exists>w1 w2 q. t = CHR ''('' # w1 @ CHR '')'' # w2 @ CHR ''{'' # q
        \<and> (\<forall>x\<in>set w1. cmatch WhiteSpace x) \<and> (\<forall>x\<in>set w2. cmatch WhiteSpace x))"
proof -
  have n1: "\<not> cmatch WhiteSpace (CHR '')'')" and n2: "\<not> cmatch WhiteSpace (CHR ''{'')"
    by simp_all
  show ?thesis
  proof
    assume "decl_here t"
    then obtain t1 t2 q where "t = CHR ''('' # t1" "after_ws (CHR '')'') t1 = Some t2"
        "after_ws (CHR ''{'') t2 = Some q"
      by (auto simp: decl_here_def split: list.splits option.splits)
    then obtain w1 w2 where "t = CHR ''('' # t1" "t1 = w1 @ CHR '')'' # t2"
       "\<forall>x\<in>set w1. cmatch WhiteSpace x" "t2 = w2 @ CHR ''{'' # q"
       "\<forall>x\<in>set w2. cmatch WhiteSpace x"
      unfolding after_ws_iff[OF n1] after_ws_iff[OF n2] by blast
    then have "t = CHR ''('' # w1 @ CHR '')'' # w2 @ CHR ''{'' # q
        \<and> (\<forall>x\<in>set w1. cmatch WhiteSpace x) \<and> (\<forall>x\<in>set w2. cmatch WhiteSpace x)"
      by simp
    then show "\<exists>w1 w2 q. t = CHR ''('' # w1 @ CHR '')'' # w2 @ CHR ''{'' # q
        \<and> (\<forall>x\<in>set w1. cmatch WhiteSpace x) \<and> (\<forall>x\<in>set w2. cmatch WhiteSpace x)"
      by blast
  next
    assume "\<exists>w1 w2 q. t = CHR ''('' # w1 @ CHR '')'' # w2 @ CHR ''{'' # q
        \<and> (\<forall>x\<in>set w1. cmatch WhiteSpace x) \<and> (\<forall>x\<in>set w2. cmatch WhiteSpace x)"
    then obtain w1 w2 q where t: "t = CHR ''('' # w1 @ CHR '')'' # w2 @ CHR ''{'' # q"
      and w: "\<forall>x\<in>set w1. cmatch WhiteSpace x" "\<forall>x\<in>set w2. cmatch WhiteSpace x"
      by blast
    have a: "after_ws (CHR '')'') (w1 @ CHR '')'' # w2 @ CHR ''{'' # q) = Some (w2 @ CHR ''{'' # q)"
      unfolding after_ws_iff[OF n1] using w(1) by blast
    have b: "after_ws (CHR ''{'') (w2 @ CHR ''{'' # q) = Some q"
      unfolding after_ws_iff[OF n2] using w(2) by blast
    show "decl_here t"
      unfolding t decl_here_def by (simp add: a b)
  qed
qed

lemma matches_functionStartExp:
  "matches functionStartExp beg m \<longleftrightarrow>
     (\<exists>a w1 w2. m = a @ CHR ''('' # w1 @ CHR '')'' # w2 @ ''{''
        \<and> newline \<notin> set a
        \<and> (\<forall>x\<in>set w1. cmatch WhiteSpace x) \<and> (\<forall>x\<in>set w2. cmatch WhiteSpace x))"
  unfolding functionStartExp_def
  by (simp add: matches_Seq_iff matches_Star_Chr matches_Chr_iff cmatch_Dot_all
        del: matches.simps cmatch.simps(2,3)) blast

lemma MatchString_functionStartExp:
  "MatchString functionStartExp s \<longleftrightarrow> somewhere decl_here s"
proof
  assume "MatchString functionStartExp s"
  then obtain p a w1 w2 q where
     "s = p @ (a @ CHR ''('' # w1 @ CHR '')'' # w2 @ ''{'') @ q"
     and w: "\<forall>x\<in>set w1. cmatch WhiteSpace x" "\<forall>x\<in>set w2. cmatch WhiteSpace x"
    unfolding MatchString_iff matches_functionStartExp by blast
  then have "s = (p @ a) @ (CHR ''('' # w1 @ CHR '')'' # w2 @ CHR ''{'' # q)" by simp
  moreover have "decl_here (CHR ''('' # w1 @ CHR '')'' # w2 @ CHR ''{'' # q)"
    unfolding decl_here_iff using w by blast
  ultimately show "somewhere decl_here s"
    unfolding somewhere_iff by blast
next
  assume "somewhere decl_here s"
  then obtain p w1 w2 q where
     "s = p @ (CHR ''('' # w1 @ CHR '')'' # w2 @ CHR ''{'' # q)"
     and w: "\<forall>x\<in>set w1. cmatch WhiteSpace x" "\<forall>x\<in>set w2. cmatch WhiteSpace x"
    unfolding somewhere_iff decl_here_iff by blast
  then have "s = p @ ([] @ CHR ''('' # w1 @ CHR '')'' # w2 @ ''{'') @ q" by simp
  moreover have "matches functionStartExp (p = []) ([] @ CHR ''('' # w1 @ CHR '')'' # w2 @ ''{'')"
    unfolding matches_functionStartExp using w by fastforce
  ultimately show "MatchString functionStartExp s"
    unfolding MatchString_iff by blast
qed

lemma Contains_char: "Contains s [c] \<longleftrightarrow> c \<in> set s"
  unfolding Contains_iff by (auto simp: in_set_conv_decomp)

lemma MatchString_functionEndExp: "MatchString functionEndExp v \<longleftrightarrow> CHR ''}'' \<in> set v"
  unfolding functionEndExp_def MatchString_literal by (rule Contains_char)

lemma MatchString_functionNotEndExp:
  "MatchString functionNotEndExp v \<longleftrightarrow> follows squote ''}'' v \<or> follows dquote ''}'' v"
  unfolding functionNotEndExp_def MatchString_Alt MatchString_quote_brace ..

lemma MatchString_ccnExp:
  "MatchString ccnExp v \<longleftrightarrow>
     Contains v ''if'' \<or> Contains v ''while'' \<or> Contains v ''for'' \<or> Contains v '';;''"
  unfolding ccnExp_def MatchString_Alt MatchString_literal ..

lemma MatchString_NotCcnExp:
  "MatchString NotCcnExp v \<longleftrightarrow>
     follows squote ''if'' v \<or> follows dquote ''if'' v \<or>
     follows squote ''while'' v \<or> follows dquote ''while'' v \<or>
     follows squote ''for'' v \<or> follows dquote ''for'' v"
proof -
  have nl: "newline \<notin> set ''if''" "newline \<notin> set ''while''" "newline \<notin> set ''for''"
    by (simp_all add: newline_def)
  show ?thesis
    unfolding NotCcnExp_def MatchString_Alt
      MatchString_quote_then[OF nl(1)] MatchString_quote_then[OF nl(2)]
      MatchString_quote_then[OF nl(3)] ..
qed

lemma MatchString_conditionExp:
  "MatchString conditionExp e \<longleftrightarrow> Contains e ''&&'' \<or> Contains e ''||''"
  unfolding conditionExp_def MatchString_Alt MatchString_literal ..

lemma isCommentLine_iff: "isCommentLine line \<longleftrightarrow> after_ws (CHR ''#'') line \<noteq> None"
  unfolding isCommentLine_def MatchString_commentExp by simp

lemmas pattern_scans = MatchString_functionEndExp MatchString_functionNotEndExp
  MatchString_ccnExp MatchString_NotCcnExp MatchString_conditionExp
  MatchString_functionStartExp isCommentLine_iff

lemmas scan_simps = HasPrefix_def after_ws_def decl_here_def squote_def dquote_def newline_def


section \<open>Properties of the loops\<close>

lemma GetBlankLines_loop_eq:
  "GetBlankLines_loop count vs = count + int (length (filter isBlankLine vs))"
  by (induction vs arbitrary: count) auto

lemma GetBlankLines_eq: "GetBlankLines fc = int (length (filter isBlankLine (Lines fc)))"
  by (simp add: GetBlankLines_def GetBlankLines_loop_eq)

lemma GetCommentLines_loop_later:
  "0 < i \<Longrightarrow> GetCommentLines_loop count i vs = count + int (length (filter isCommentLine vs))"
  by (induction vs arbitrary: count i) auto

lemma GetCommentLines_eq:
  "GetCommentLines fc = int (length (filter isCommentLine (tl (Lines fc))))"
  by (cases "Lines fc") (simp_all add: GetCommentLines_def GetCommentLines_loop_later)

lemma GetCodes_loop_eq:
  "GetCodes_loop acc vs = acc @ filter (\<lambda>v. \<not> isCommentLine v \<and> \<not> isBlankLine v) vs"
  by (induction vs arbitrary: acc) auto

lemma GetCodes_eq: "GetCodes code = filter (\<lambda>v. \<not> isCommentLine v \<and> \<not> isBlankLine v) code"
  by (simp add: GetCodes_def GetCodes_loop_eq)

lemma blank_not_comment: "isBlankLine v \<Longrightarrow> \<not> isCommentLine v"
proof -
  assume "isBlankLine v"
  then have "\<forall>x\<in>set v. x = CHR '' ''"
    unfolding isBlankLine_filter by (simp add: filter_empty_conv)
  then have "\<forall>x\<in>set v. cmatch WhiteSpace x" by simp
  then have d: "dropWhile (cmatch WhiteSpace) v = []"
    by (simp del: cmatch.simps)
  show ?thesis
    unfolding isCommentLine_iff after_ws_def d by simp
qed

lemma three_way_count:
  "int (length (filter (\<lambda>v. \<not> isCommentLine v \<and> \<not> isBlankLine v) vs))
     + int (length (filter isCommentLine vs)) + int (length (filter isBlankLine vs))
   = int (length vs)"
  by (induction vs) (auto dest: blank_not_comment)

lemma CalculateCCN_elements_eq:
  "CalculateCCN_elements n es = n + int (length (filter (MatchString conditionExp) es))"
  by (induction es arbitrary: n) auto

lemma CalculateCCN_loop_eq:
  "CalculateCCN_loop n code =
     n + (\<Sum>v\<leftarrow>code.
            if MatchString ccnExp v \<and> MatchString NotCcnExp v then 0
            else (if MatchString ccnExp v then 1 else 0)
                 + int (length (filter (MatchString conditionExp) (Split v '' ''))))"
  by (induction code arbitrary: n) (auto simp: CalculateCCN_elements_eq)

lemma length_Split_from: "length (Split_from piece s sep) \<le> length s + 1"
  by (induction piece s sep rule: Split_from.induct) (auto simp: neq_Nil_conv)

lemma length_Split: "length (Split s sep) \<le> length s + 1"
  using length_Split_from[of "[]" s sep] by (simp add: Split_def)

text \<open>
  The result is bounded by the size of the input, which is why the unbounded integers of
  the model and the 64-bit integers of the program agree on it.
\<close>

lemma CalculateCCN_upper: "CalculateCCN code \<le> 1 + (\<Sum>v\<leftarrow>code. 2 + int (length v))"
proof -
  have "(if MatchString ccnExp v \<and> MatchString NotCcnExp v then 0
            else (if MatchString ccnExp v then 1 else 0)
                 + int (length (filter (MatchString conditionExp) (Split v '' ''))))
        \<le> 2 + int (length v)" for v
  proof -
    have "length (filter (MatchString conditionExp) (Split v '' '')) \<le> length (Split v '' '')"
      by simp
    also have "\<dots> \<le> length v + 1" by (rule length_Split)
    finally show ?thesis by auto
  qed
  then show ?thesis
    unfolding CalculateCCN_def CalculateCCN_loop_eq
    by (intro add_left_mono sum_list_mono) simp
qed

lemma isCommentLine_eq: "isCommentLine = MatchString commentExp"
  by (rule ext) (simp add: isCommentLine_def)

lemma MatchString_NotCcnExp_decomp:
  "MatchString NotCcnExp v \<longleftrightarrow>
     (\<exists>p q b w r. v = p @ q # b @ w @ r \<and> (q = squote \<or> q = dquote)
        \<and> (w = ''if'' \<or> w = ''while'' \<or> w = ''for'') \<and> newline \<notin> set b)"
proof -
  have nl: "newline \<notin> set ''if''" "newline \<notin> set ''while''" "newline \<notin> set ''for''"
    by (simp_all add: newline_def)
  show ?thesis
    unfolding MatchString_NotCcnExp follows_iff[OF nl(1)] follows_iff[OF nl(2)] follows_iff[OF nl(3)]
    by blast
qed

lemma GetFunctions_loop_append:
  "GetFunctions_loop st (xs @ ys) = GetFunctions_loop (GetFunctions_loop st xs) ys"
  by (induction xs arbitrary: st) auto

lemma step_outside:
  "\<not> isFunctionLine v \<Longrightarrow>
   GetFunctions_step \<lparr>result = m, flag = False, funcname = f\<rparr> v =
     \<lparr>result = append_line m ''BARE_CODE'' v, flag = False, funcname = ''BARE_CODE''\<rparr>"
  by (simp add: GetFunctions_step_def)

lemma step_inside:
  "MatchString functionEndExp v \<longrightarrow> MatchString functionNotEndExp v \<Longrightarrow>
   GetFunctions_step \<lparr>result = m, flag = True, funcname = f\<rparr> v =
     \<lparr>result = append_line m f v, flag = True, funcname = f\<rparr>"
  by (auto simp add: GetFunctions_step_def)

lemma outside_loop:
  assumes "\<forall>v\<in>set code. \<not> isFunctionLine v" "code \<noteq> []"
  shows "GetFunctions_loop \<lparr>result = m, flag = False, funcname = f\<rparr> code =
     \<lparr>result = m(''BARE_CODE'' \<mapsto>
           (case m ''BARE_CODE'' of None \<Rightarrow> [] | Some body \<Rightarrow> body) @ code),
      flag = False, funcname = ''BARE_CODE''\<rparr>"
  using assms
proof (induction code arbitrary: m f)
  case Nil
  then show ?case by simp
next
  case (Cons v code)
  have step: "GetFunctions_step \<lparr>result = m, flag = False, funcname = f\<rparr> v =
     \<lparr>result = append_line m ''BARE_CODE'' v, flag = False, funcname = ''BARE_CODE''\<rparr>"
    using Cons.prems by (intro step_outside) simp
  show ?case
  proof (cases "code = []")
    case True
    then show ?thesis by (simp add: step append_line_def fun_eq_iff)
  next
    case False
    have "GetFunctions_loop
        \<lparr>result = append_line m ''BARE_CODE'' v, flag = False, funcname = ''BARE_CODE''\<rparr> code =
       \<lparr>result = (append_line m ''BARE_CODE'' v)(''BARE_CODE'' \<mapsto>
           (case append_line m ''BARE_CODE'' v ''BARE_CODE'' of None \<Rightarrow> [] | Some body \<Rightarrow> body)
             @ code),
        flag = False, funcname = ''BARE_CODE''\<rparr>"
      using Cons.prems False by (intro Cons.IH) simp_all
    then show ?thesis by (simp add: step append_line_def fun_eq_iff)
  qed
qed

lemma inside_loop:
  assumes "\<forall>b\<in>set body. MatchString functionEndExp b \<longrightarrow> MatchString functionNotEndExp b"
    "body \<noteq> []"
  shows "GetFunctions_loop \<lparr>result = m, flag = True, funcname = f\<rparr> body =
     \<lparr>result = m(f \<mapsto> (case m f of None \<Rightarrow> [] | Some old \<Rightarrow> old) @ body),
      flag = True, funcname = f\<rparr>"
  using assms
proof (induction body arbitrary: m)
  case Nil
  then show ?case by simp
next
  case (Cons v body)
  have step: "GetFunctions_step \<lparr>result = m, flag = True, funcname = f\<rparr> v =
     \<lparr>result = append_line m f v, flag = True, funcname = f\<rparr>"
    using Cons.prems by (intro step_inside) simp
  show ?case
  proof (cases "body = []")
    case True
    then show ?thesis by (simp add: step append_line_def fun_eq_iff)
  next
    case False
    have "GetFunctions_loop \<lparr>result = append_line m f v, flag = True, funcname = f\<rparr> body =
       \<lparr>result = (append_line m f v)(f \<mapsto>
           (case append_line m f v f of None \<Rightarrow> [] | Some old \<Rightarrow> old) @ body),
        flag = True, funcname = f\<rparr>"
      using Cons.prems False by (intro Cons.IH) simp_all
    then show ?thesis by (simp add: step append_line_def fun_eq_iff)
  qed
qed

text \<open>
  A line without a single quote reaches the pattern of the declaration as it is, whatever
  double quotes it holds: \<open>removeQuote\<close> removes nothing from it.
\<close>

lemma removeQuote_loop_no_quote:
  "squote \<notin> set line \<Longrightarrow>
   removeQuote_loop tmp False (map (\<lambda>c. [c]) line) = tmp @ map (\<lambda>c. [c]) line"
  by (induction line arbitrary: tmp) (auto simp: HasPrefix_def)

lemma removeQuote_no_quote: "squote \<notin> set line \<Longrightarrow> removeQuote line = line"
  by (simp add: removeQuote_def Split_def Join_def removeQuote_loop_no_quote)

lemma isFunctionLine_no_single_quote:
  "squote \<notin> set line \<Longrightarrow> isFunctionLine line = MatchString functionStartExp line"
  by (simp add: isFunctionLine_def removeQuote_no_quote Let_def)

text \<open>
  The code count is the number of lines that are neither blank nor, past the first line,
  comments.
\<close>

lemma GetCodeLines_counts:
  "GetCodeLines \<lparr>Name = n, Lines = l # ls\<rparr> =
     (if isBlankLine l then 0 else 1)
     + int (length (filter (\<lambda>v. \<not> isCommentLine v \<and> \<not> isBlankLine v) ls))"
  using three_way_count[of ls]
  by (simp add: GetCodeLines_def GetLines_def GetBlankLines_eq GetCommentLines_eq)

text \<open>
  The branch that ends a function changes the flag and the name and nothing else: the
  map is the same before and after, so a declaration, a non-empty body none of whose
  lines ends the function, and a closing line give the body lines alone.
\<close>

lemma terminator_branch_appends_nothing:
  assumes "MatchString functionEndExp t" "\<not> MatchString functionNotEndExp t"
  shows "(flag st \<longrightarrow> GetFunctions_step st t = st\<lparr>flag := False, funcname := []\<rparr>)
    \<and> (isFunctionLine d \<and> body \<noteq> []
        \<and> (\<forall>b\<in>set body. MatchString functionEndExp b \<longrightarrow> MatchString functionNotEndExp b)
       \<longrightarrow> GetFunctions (d # body @ [t]) = [GetFunctionName d \<mapsto> body])"
proof (intro conjI impI)
  assume "flag st"
  with assms show "GetFunctions_step st t = st\<lparr>flag := False, funcname := []\<rparr>"
    by (simp add: GetFunctions_step_def)
next
  assume a: "isFunctionLine d \<and> body \<noteq> []
        \<and> (\<forall>b\<in>set body. MatchString functionEndExp b \<longrightarrow> MatchString functionNotEndExp b)"
  let ?s0 = "\<lparr>result = Map.empty, flag = False, funcname = []\<rparr>"
  let ?s1 = "\<lparr>result = Map.empty, flag = True, funcname = GetFunctionName d\<rparr>"
  have s1: "GetFunctions_step ?s0 d = ?s1"
    using a by (simp add: GetFunctions_step_def)
  have s2: "GetFunctions_loop ?s1 body =
      \<lparr>result = [GetFunctionName d \<mapsto> body], flag = True, funcname = GetFunctionName d\<rparr>"
    using inside_loop [of body Map.empty "GetFunctionName d"] a by simp
  have s3: "GetFunctions_step
      \<lparr>result = [GetFunctionName d \<mapsto> body], flag = True, funcname = GetFunctionName d\<rparr> t
      = \<lparr>result = [GetFunctionName d \<mapsto> body], flag = False, funcname = []\<rparr>"
    using assms by (simp add: GetFunctions_step_def)
  show "GetFunctions (d # body @ [t]) = [GetFunctionName d \<mapsto> body]"
    by (simp add: GetFunctions_def GetFunctions_loop_append s1 s2 s3)
qed

text \<open>
  The sum of the contributions, for a body no line of which is skipped by the quote
  exception.
\<close>

lemma CalculateCCN_sum_unskipped:
  assumes "\<forall>v\<in>set code. \<not> (MatchString ccnExp v \<and> MatchString NotCcnExp v)"
  shows "CalculateCCN code =
     1 + (\<Sum>v\<leftarrow>code. (if MatchString ccnExp v then 1 else 0)
            + int (length (filter (\<lambda>e. Contains e ''&&'' \<or> Contains e ''||'') (Split v '' ''))))"
proof -
  have c: "MatchString conditionExp = (\<lambda>e. Contains e ''&&'' \<or> Contains e ''||'')"
    by (rule ext) (rule MatchString_conditionExp)
  have "(\<Sum>v\<leftarrow>code.
            if MatchString ccnExp v \<and> MatchString NotCcnExp v then 0
            else (if MatchString ccnExp v then 1 else 0)
                 + int (length (filter (MatchString conditionExp) (Split v '' ''))))
      = (\<Sum>v\<leftarrow>code. (if MatchString ccnExp v then 1 else 0)
            + int (length (filter (MatchString conditionExp) (Split v '' ''))))"
    using assms by (intro arg_cong[where f = sum_list] map_cong) auto
  then show ?thesis
    unfolding CalculateCCN_def CalculateCCN_loop_eq c by simp
qed

section \<open>The claims\<close>

text \<open>
  Claim C1 at the script \<^verbatim>\<open>foo() {\<close>, \<^verbatim>\<open>echo hi\<close>, \<^verbatim>\<open>}\<close>. The claim has the
  closing line appended to the body of the function it ends, and the comment of the
  program above the loop says that a line met while the flag is set is added
  unconditionally. The closing line contains a brace that the quote pattern does not
  excuse, so it ends the function; the code leaves it out: the body returned for \<open>foo\<close>
  is the line \<^verbatim>\<open>echo hi\<close> alone, and the closing line is in no body.
\<close>

theorem terminator_line_not_appended:
  "GetFunctions [''foo() {'', ''echo hi'', ''}''] = [''foo'' \<mapsto> [''echo hi'']]
   \<and> MatchString functionEndExp ''}'' \<and> \<not> MatchString functionNotEndExp ''}''
   \<and> ''}'' \<notin> set [''echo hi'']
   \<and> GetFunctions_step \<lparr>result = [''foo'' \<mapsto> [''echo hi'']], flag = True, funcname = ''foo''\<rparr> ''}''
       = \<lparr>result = [''foo'' \<mapsto> [''echo hi'']], flag = False, funcname = []\<rparr>"
  by (simp add: GetFunctions_def GetFunctions_step_def append_line_def GetFunctionName_def
       isFunctionLine_def pattern_scans scan_simps removeQuote_def Split_def Join_def)

text \<open>
  Claim C2 at the line \<^verbatim>\<open>echo "foo() {"\<close>. The double quotes are replaced in \<open>tmp\<close>
  only; \<open>removeQuote\<close> receives the line itself, finds no single quote and removes
  nothing, so the line counts as a function declaration. The same line written with single
  quotes is stripped and does not.
\<close>

theorem isFunctionLine_double_quoted_declaration:
  "isFunctionLine (''echo '' @ [dquote] @ ''foo() {'' @ [dquote])
   \<and> Replace (''echo '' @ [dquote] @ ''foo() {'' @ [dquote]) [dquote] [squote]
       = ''echo '' @ [squote] @ ''foo() {'' @ [squote]
   \<and> removeQuote (''echo '' @ [dquote] @ ''foo() {'' @ [dquote])
       = ''echo '' @ [dquote] @ ''foo() {'' @ [dquote]
   \<and> removeQuote (''echo '' @ [squote] @ ''foo() {'' @ [squote]) = ''echo ''
   \<and> \<not> isFunctionLine (''echo '' @ [squote] @ ''foo() {'' @ [squote])"
  by (simp add: isFunctionLine_def pattern_scans scan_simps removeQuote_def Split_def Join_def)

text \<open>
  Claim C3, as the code has it. A line that matches one of \<^verbatim>\<open>if\<close>, \<^verbatim>\<open>while\<close>,
  \<^verbatim>\<open>for\<close>, \<^verbatim>\<open>;;\<close> adds exactly one for the keyword, unless it also matches the
  exception pattern, and then it adds nothing. The exception pattern is: a single or a
  double quote, followed later on the same line by \<^verbatim>\<open>if\<close>, \<^verbatim>\<open>while\<close> or
  \<^verbatim>\<open>for\<close>.
\<close>

theorem keyword_increment_per_line:
  "CalculateCCN (pre @ v # post) =
     CalculateCCN (pre @ post)
     + (if MatchString ccnExp v \<and> MatchString NotCcnExp v then 0
        else (if MatchString ccnExp v then 1 else 0)
             + int (length (filter (MatchString conditionExp) (Split v '' ''))))
   \<and> (MatchString ccnExp v \<longleftrightarrow>
        Contains v ''if'' \<or> Contains v ''while'' \<or> Contains v ''for'' \<or> Contains v '';;'')
   \<and> (MatchString NotCcnExp v \<longleftrightarrow>
        (\<exists>p q b w r. v = p @ q # b @ w @ r \<and> (q = squote \<or> q = dquote)
           \<and> (w = ''if'' \<or> w = ''while'' \<or> w = ''for'') \<and> newline \<notin> set b))"
proof -
  have "CalculateCCN (pre @ v # post) =
     CalculateCCN (pre @ post)
     + (if MatchString ccnExp v \<and> MatchString NotCcnExp v then 0
        else (if MatchString ccnExp v then 1 else 0)
             + int (length (filter (MatchString conditionExp) (Split v '' ''))))"
    unfolding CalculateCCN_def CalculateCCN_loop_eq by simp
  then show ?thesis
    using MatchString_ccnExp[of v] MatchString_NotCcnExp_decomp[of v] by blast
qed

theorem keyword_increment_per_line_witness:
  "CalculateCCN [''x=1'', ''if true; then'', ''fi''] = CalculateCCN [''x=1'', ''fi''] + 1
   \<and> CalculateCCN [''x=1'', ''echo '' @ [dquote] @ ''if this then that'' @ [dquote], ''fi'']
       = CalculateCCN [''x=1'', ''fi'']
   \<and> MatchString NotCcnExp (''echo '' @ [dquote] @ ''if this then that'' @ [dquote])
   \<and> \<not> MatchString NotCcnExp ''if true; then''"
  using keyword_increment_per_line [of "[''x=1'']" "''if true; then''" "[''fi'']"]
    keyword_increment_per_line [of "[''x=1'']" "''echo '' @ [dquote] @ ''if this then that'' @ [dquote]" "[''fi'']"]
  by (simp add: pattern_scans scan_simps Split_def)

text \<open>
  Claim C3 as stated fails: the line \<^verbatim>\<open>echo ";;"\<close> has no connective and none of the
  three words, its only match is the \<^verbatim>\<open>;;\<close> inside the quotes, and it adds one.
\<close>

theorem quoted_case_terminator_counterexample:
  "CalculateCCN [''echo '' @ [dquote] @ '';;'' @ [dquote]] = 2
   \<and> filter (MatchString conditionExp) (Split (''echo '' @ [dquote] @ '';;'' @ [dquote]) '' '') = []
   \<and> \<not> Contains (''echo '' @ [dquote] @ '';;'' @ [dquote]) ''if''
   \<and> \<not> Contains (''echo '' @ [dquote] @ '';;'' @ [dquote]) ''while''
   \<and> \<not> Contains (''echo '' @ [dquote] @ '';;'' @ [dquote]) ''for''"
  by (simp add: CalculateCCN_def pattern_scans scan_simps Split_def)

text \<open>
  Claim C4, as the code has it. A line that is not skipped by the quote exception is
  split at the single spaces and every piece that contains \<^verbatim>\<open>&&\<close> or \<^verbatim>\<open>||\<close>
  adds one, however many occurrences it holds: wherever the line stands in a body, it
  adds its keyword increment and one for each such piece.
\<close>

theorem connective_increment_per_token:
  assumes "\<not> (MatchString ccnExp v \<and> MatchString NotCcnExp v)"
  shows "CalculateCCN (pre @ v # post) =
     CalculateCCN (pre @ post)
     + (if MatchString ccnExp v then 1 else 0)
     + int (length (filter (\<lambda>e. Contains e ''&&'' \<or> Contains e ''||'') (Split v '' '')))"
proof -
  have c: "MatchString conditionExp = (\<lambda>e. Contains e ''&&'' \<or> Contains e ''||'')"
    by (rule ext) (rule MatchString_conditionExp)
  show ?thesis
    using assms unfolding CalculateCCN_def CalculateCCN_loop_eq c by auto
qed

theorem connective_increment_per_token_witness:
  "\<not> MatchString NotCcnExp ''if a&&b&&c || d; then''
   \<and> MatchString ccnExp ''if a&&b&&c || d; then''
   \<and> Split ''if a&&b&&c || d; then'' '' '' = [''if'', ''a&&b&&c'', ''||'', ''d;'', ''then'']
   \<and> CalculateCCN [''echo '' @ [dquote] @ ''if'' @ [dquote], ''if a&&b&&c || d; then'', ''x && y'']
       = CalculateCCN [''echo '' @ [dquote] @ ''if'' @ [dquote], ''x && y''] + 3
   \<and> CalculateCCN [''echo '' @ [dquote] @ ''if'' @ [dquote], ''if a&&b&&c || d; then'', ''x && y'']
       = 5"
proof -
  have h1: "\<not> MatchString NotCcnExp ''if a&&b&&c || d; then''"
    by (simp add: pattern_scans scan_simps)
  then have h: "\<not> (MatchString ccnExp ''if a&&b&&c || d; then''
      \<and> MatchString NotCcnExp ''if a&&b&&c || d; then'')"
    by simp
  show ?thesis
    using h1 connective_increment_per_token [OF h,
        of "[''echo '' @ [dquote] @ ''if'' @ [dquote]]" "[''x && y'']"]
    by (simp add: CalculateCCN_def pattern_scans scan_simps Split_def)
qed

text \<open>
  Claim C4 as stated fails: \<^verbatim>\<open>a&&b&&c\<close> is one piece with two occurrences and adds
  one, not two.
\<close>

theorem two_connectives_one_token_counterexample:
  "Split ''a&&b&&c'' '' '' = [''a&&b&&c''] \<and> CalculateCCN [''a&&b&&c''] = 2"
  by (simp add: CalculateCCN_def pattern_scans scan_simps Split_def)

text \<open>
  Claim C5. For every file, the code count, the comment count and the blank count add up
  to the line count, where the line count is the number of lines, the blank count the
  number of blank lines and the comment count the number of comment lines past index 0.
\<close>

theorem file_counts_add_up:
  "GetCodeLines fc + GetCommentLines fc + GetBlankLines fc = GetLines fc
   \<and> GetLines fc = int (length (Lines fc))
   \<and> GetBlankLines fc = int (length (filter isBlankLine (Lines fc)))
   \<and> GetCommentLines fc = int (length (filter isCommentLine (tl (Lines fc))))"
  by (simp add: GetCodeLines_def GetLines_def GetBlankLines_eq GetCommentLines_eq)

theorem file_counts_add_up_witness:
  "GetCodeLines \<lparr>Name = ''a.sh'', Lines = [''#!/bin/sh'', [], ''# c'', ''echo hi'']\<rparr> = 2
   \<and> GetCommentLines \<lparr>Name = ''a.sh'', Lines = [''#!/bin/sh'', [], ''# c'', ''echo hi'']\<rparr> = 1
   \<and> GetBlankLines \<lparr>Name = ''a.sh'', Lines = [''#!/bin/sh'', [], ''# c'', ''echo hi'']\<rparr> = 1
   \<and> GetLines \<lparr>Name = ''a.sh'', Lines = [''#!/bin/sh'', [], ''# c'', ''echo hi'']\<rparr> = 4"
  using file_counts_add_up [of "\<lparr>Name = ''a.sh'', Lines = [''#!/bin/sh'', [], ''# c'', ''echo hi'']\<rparr>"]
  by (simp add: isBlankLine_filter isCommentLine_iff scan_simps)

text \<open>
  Claim C6. For every sequence of body lines, the empty one included, \<open>CalculateCCN\<close>
  returns at least 1.
\<close>

theorem CalculateCCN_at_least_one: "1 \<le> CalculateCCN code \<and> CalculateCCN [] = 1"
proof -
  have "0 \<le> (\<Sum>v\<leftarrow>code.
            if MatchString ccnExp v \<and> MatchString NotCcnExp v then 0
            else (if MatchString ccnExp v then 1 else 0)
                 + int (length (filter (MatchString conditionExp) (Split v '' ''))))"
    by (rule sum_list_nonneg) auto
  then show ?thesis
    by (simp add: CalculateCCN_def CalculateCCN_loop_eq)
qed

theorem CalculateCCN_at_least_one_witness:
  "1 \<le> CalculateCCN [''for f in *; do'', ''[ -f $f ] && echo $f'', ''done'']
   \<and> CalculateCCN [''for f in *; do'', ''[ -f $f ] && echo $f'', ''done''] = 3"
  using CalculateCCN_at_least_one [of "[''for f in *; do'', ''[ -f $f ] && echo $f'', ''done'']"]
  by (simp add: CalculateCCN_def pattern_scans scan_simps Split_def)

text \<open>
  Claim C7. The comment count of a file is the number of lines after the first that match
  \<^verbatim>\<open>^\s*#\<close>: the first line is never counted, whatever its text, and a line that
  matches the pattern at a later index adds one to the count.
\<close>

theorem comment_count_skips_first_line:
  "GetCommentLines fc = int (length (filter (MatchString commentExp) (tl (Lines fc))))
   \<and> GetCommentLines (fc\<lparr>Lines := l # ls\<rparr>) = int (length (filter (MatchString commentExp) ls))
   \<and> (MatchString commentExp l \<longrightarrow>
        GetCommentLines (fc\<lparr>Lines := x # pre @ l # post\<rparr>)
          = GetCommentLines (fc\<lparr>Lines := x # pre @ post\<rparr>) + 1)"
  by (simp add: GetCommentLines_eq isCommentLine_eq)

theorem comment_count_skips_first_line_witness:
  "MatchString commentExp ''# comment''
   \<and> GetCommentLines \<lparr>Name = ''a.sh'', Lines = [''# comment'']\<rparr> = 0
   \<and> GetCommentLines \<lparr>Name = ''a.sh'', Lines = [''echo hi'', ''# comment'']\<rparr> = 1
   \<and> GetCommentLines \<lparr>Name = ''a.sh'', Lines = [''echo hi'']\<rparr> = 0"
  using comment_count_skips_first_line
    [of "\<lparr>Name = ''a.sh'', Lines = [''# comment'']\<rparr>" "''echo hi''" "[]" "''# comment''" "[]" "[]"]
    comment_count_skips_first_line
    [of "\<lparr>Name = ''a.sh'', Lines = [''# comment'']\<rparr>" "''# comment''" "[]" "''# comment''" "[]" "[]"]
  by (simp add: GetCommentLines_def isCommentLine_iff MatchString_commentExp scan_simps)

text \<open>
  Claim C8. \<open>isBlankLine\<close> holds exactly of the lines that are empty once every space
  character (U+0020 only) is removed. The empty line and a line of three spaces are
  blank; a line that is one tab character is not.
\<close>

theorem isBlankLine_iff_spaces_removed_empty:
  "(isBlankLine line \<longleftrightarrow> filter (\<lambda>x. x \<noteq> CHR '' '') line = [])
   \<and> isBlankLine ''''
   \<and> isBlankLine ''   ''
   \<and> \<not> isBlankLine [CHR 0x09]"
  by (simp add: isBlankLine_filter)

theorem isBlankLine_iff_spaces_removed_empty_witness:
  "(isBlankLine '' x '' \<longleftrightarrow> filter (\<lambda>x. x \<noteq> CHR '' '') '' x '' = [])
   \<and> \<not> isBlankLine '' x ''"
  using isBlankLine_iff_spaces_removed_empty [of "'' x ''"] by simp

text \<open>
  Claim C9, as the code has it. For every non-empty sequence of lines none of which is a
  function declaration, the extractor returns the map with the single key
  \<^verbatim>\<open>BARE_CODE\<close>, bound to all the lines in their order.
\<close>

theorem no_declaration_gives_BARE_CODE:
  assumes "code \<noteq> []" "\<forall>v\<in>set code. \<not> isFunctionLine v"
  shows "GetFunctions code = [''BARE_CODE'' \<mapsto> code]"
  using outside_loop [of code Map.empty "[]"] assms
  by (simp add: GetFunctions_def)

theorem no_declaration_gives_BARE_CODE_witness:
  "\<not> isFunctionLine ''x=1'' \<and> \<not> isFunctionLine ''echo $x''
   \<and> GetFunctions [''x=1'', ''echo $x''] = [''BARE_CODE'' \<mapsto> [''x=1'', ''echo $x'']]"
proof -
  have h1: "[''x=1'', ''echo $x''] \<noteq> []" by simp
  have h2: "\<not> isFunctionLine ''x=1''" and h3: "\<not> isFunctionLine ''echo $x''"
    by (simp_all add: isFunctionLine_def pattern_scans scan_simps removeQuote_def Split_def Join_def)
  have h: "\<forall>v\<in>set [''x=1'', ''echo $x'']. \<not> isFunctionLine v"
    using h2 h3 by simp
  show ?thesis
    using h2 h3 no_declaration_gives_BARE_CODE [OF h1 h] by simp
qed

text \<open>
  Claim C9 as stated fails for the empty sequence: no line is a declaration, and the map
  returned has no key at all.
\<close>

theorem empty_code_no_bucket_counterexample:
  "dom (GetFunctions []) = {} \<and> GetFunctions [] ''BARE_CODE'' = None"
  by (simp add: GetFunctions_def)

text \<open>
  Claim C10. \<open>GetCodes\<close> tests every line, the first one included, against the comment
  pattern. A first line that matches it is removed from the code-only sequence although
  the file counts take it for code: the code-only sequence is then one line shorter than
  the code count of the file.
\<close>

theorem GetCodes_drops_leading_comment:
  "GetCodes code = filter (\<lambda>v. \<not> isCommentLine v \<and> \<not> isBlankLine v) code
   \<and> (isCommentLine l \<longrightarrow>
         l \<notin> set (GetCodes (l # ls))
       \<and> int (length (GetCodes (l # ls))) = GetCodeLines \<lparr>Name = n, Lines = l # ls\<rparr> - 1
       \<and> int (length (GetCodes (l # ls))) < GetCodeLines \<lparr>Name = n, Lines = l # ls\<rparr>)"
proof -
  have "int (length (GetCodes (l # ls))) = GetCodeLines \<lparr>Name = n, Lines = l # ls\<rparr> - 1"
    if l: "isCommentLine l"
  proof -
    from l have nb: "\<not> isBlankLine l" using blank_not_comment by blast
    show ?thesis
      using three_way_count[of ls] l nb
      by (simp add: GetCodes_eq GetCodeLines_def GetLines_def GetBlankLines_eq GetCommentLines_eq)
  qed
  then show ?thesis
    by (auto simp: GetCodes_eq)
qed

theorem GetCodes_drops_leading_comment_witness:
  "isCommentLine ''#!/bin/sh''
   \<and> GetCodes [''#!/bin/sh'', ''echo hi''] = [''echo hi'']
   \<and> GetCodeLines \<lparr>Name = ''a.sh'', Lines = [''#!/bin/sh'', ''echo hi'']\<rparr> = 2
   \<and> int (length (GetCodes [''#!/bin/sh'', ''echo hi'']))
        < GetCodeLines \<lparr>Name = ''a.sh'', Lines = [''#!/bin/sh'', ''echo hi'']\<rparr>"
  using GetCodes_drops_leading_comment [of "[''#!/bin/sh'', ''echo hi'']" "''#!/bin/sh''" "[''echo hi'']" "''a.sh''"]
  by (simp add: GetCodes_def GetCodeLines_def GetLines_def GetBlankLines_def GetCommentLines_def
        isBlankLine_filter isCommentLine_iff scan_simps)

end
